theory Spec2Isabelle
  imports Complex_Main
begin

section \<open>Cyclic days-off workforce scheduling (logistics\_classification.ipynb)\<close>

text \<open>
  The notebook computes, for a seven-day demand vector \<open>n_staff\<close>, the minimum number of
  workers per weekly start day. Days and decision-variable indices are Python integers;
  list subscripts that run out of range raise \<open>IndexError\<close>, a missing dictionary key
  raises \<open>KeyError\<close>. Both are values of the model.
\<close>

subsection \<open>Python primitives used by the notebook\<close>

datatype error = IndexError | KeyError

definition bind_err :: "error + 'a \<Rightarrow> ('a \<Rightarrow> error + 'b) \<Rightarrow> error + 'b" where
  "bind_err r f = (case r of Inl e \<Rightarrow> Inl e | Inr v \<Rightarrow> f v)"

text \<open>A list comprehension whose element expression may raise: the first raise wins.\<close>

fun collect :: "(error + 'a) list \<Rightarrow> error + 'a list" where
  "collect [] = Inr []"
| "collect (r # rs) = bind_err r (\<lambda>v. bind_err (collect rs) (\<lambda>vs. Inr (v # vs)))"

text \<open>\<open>xs[j]\<close>: a negative subscript counts from the end of the list.\<close>

definition getitem :: "'a list \<Rightarrow> int \<Rightarrow> error + 'a" where
  "getitem xs j =
     (let n = int (length xs); k = (if j < 0 then n + j else j)
      in if 0 \<le> k \<and> k < n then Inr (xs ! nat k) else Inl IndexError)"



text \<open>\<open>range(a, b)\<close>.\<close>

definition range_py :: "int \<Rightarrow> int \<Rightarrow> int list" where
  "range_py a b = [a..b - 1]"

text \<open>\<open>ncycles(iterable, n)\<close>: the elements of the sequence, \<open>n\<close> times over.\<close>

definition ncycles :: "'a list \<Rightarrow> nat \<Rightarrow> 'a list" where
  "ncycles iterable n = concat (replicate n iterable)"

subsection \<open>The circular day list and the two slicings\<close>

definition n_days :: "int list" where
  "n_days = range_py 0 7"

definition n_days_c :: "int list" where
  "n_days_c = ncycles n_days 3"

text \<open>Working days: \<open>[[n_days_c[j] for j in range(i, i + 5)] for i in n_days_c]\<close>.\<close>

definition list_in :: "error + int list list" where
  "list_in = collect (map (\<lambda>i. collect (map (getitem n_days_c) (range_py i (i + 5)))) n_days_c)"

text \<open>Shifts off for each day: \<open>[[n_days_c[j] for j in range(i + 1, i + 3)] for i in n_days_c]\<close>.\<close>

definition list_excl :: "error + int list list" where
  "list_excl = collect (map (\<lambda>i. collect (map (getitem n_days_c) (range_py (i + 1) (i + 3)))) n_days_c)"

subsection \<open>The integer program\<close>

text \<open>
  \<open>x = LpVariable.dicts('shift_', n_days, lowBound=0, cat='Integer')\<close> makes one integer
  variable per element of \<open>n_days\<close>; a variable is named here by its key. \<open>lpSum\<close> of a
  list of variables is kept as the list of their keys (every coefficient is 1), and
  \<open>lpSum([...]) >= staff\<close> as the pair of that list and the bound.
\<close>

record LpConstraint =
  lhs :: "int list"
  rhs :: int

record LpProblem =
  objective :: "int list"
  constraints :: "LpConstraint list"

text \<open>
  The cells run in notebook order, so a raise in one of the slicing cells stops the run
  before the problem is built. \<open>zip\<close> stops at its shortest argument.
\<close>

definition prob :: "int list \<Rightarrow> error + LpProblem" where
  "prob n_staff =
     bind_err list_in (\<lambda>_.
     bind_err list_excl (\<lambda>excl.
       Inr \<lparr>objective = map (\<lambda>i. i) n_days,
            constraints =
              map (\<lambda>(d, l_excl, staff). \<lparr>lhs = [i \<leftarrow> n_days. i \<notin> set l_excl], rhs = staff\<rparr>)
                  (zip n_days (zip excl n_staff))\<rparr>))"

text \<open>The demand vector of the notebook.\<close>

definition n_staff :: "int list" where
  "n_staff = [31, 45, 40, 40, 48, 30, 20]"

subsection \<open>What the solver is asked for\<close>

text \<open>
  The solver (CBC, called through \<open>prob.solve()\<close>) is outside the notebook. An assignment
  gives every variable key a number; \<open>value_of\<close> is \<open>pulp.value\<close> of a sum of variables,
  over integers for the assignments of the integer program and over reals for the float
  values the solver hands back. A solution of the integer program is optimal when it is a
  feasible assignment (lower bound 0 on every variable, every constraint met) whose
  objective no feasible assignment undercuts.
\<close>

definition value_of :: "(int \<Rightarrow> 'a::comm_monoid_add) \<Rightarrow> int list \<Rightarrow> 'a" where
  "value_of v e = sum_list (map v e)"

definition satisfies :: "(int \<Rightarrow> int) \<Rightarrow> LpConstraint \<Rightarrow> bool" where
  "satisfies v c = (rhs c \<le> value_of v (lhs c))"

definition feasible :: "LpProblem \<Rightarrow> (int \<Rightarrow> int) \<Rightarrow> bool" where
  "feasible p v = (list_all (\<lambda>i. 0 \<le> v i) n_days \<and> list_all (satisfies v) (constraints p))"

definition optimal :: "LpProblem \<Rightarrow> (int \<Rightarrow> int) \<Rightarrow> bool" where
  "optimal p v =
     (feasible p v \<and> (\<forall>w. feasible p w \<longrightarrow> value_of v (objective p) \<le> value_of w (objective p)))"

subsection \<open>The schedule report\<close>




text \<open>
  \<open>pulp.value(prob.objective)\<close>, printed as the total number of staff: the objective
  summed over the values of the variables, which after the solve are the floats
  \<open>varValue\<close>, not the truncated entries of \<open>dct_work\<close>.
\<close>

definition total_staff :: "LpProblem \<Rightarrow> (int \<Rightarrow> 'a::comm_monoid_add) \<Rightarrow> 'a" where
  "total_staff p v = value_of v (objective p)"

text \<open>
  The days on which start day \<open>s\<close> is off: the days \<open>d\<close> whose constraint leaves \<open>x[s]\<close>
  out, that is, whose entry of \<open>list_excl\<close> holds \<open>s\<close>.
\<close>

definition days_off :: "int \<Rightarrow> error + int list" where
  "days_off s =
     bind_err list_excl (\<lambda>excl.
       Inr (map fst [(d, l_excl) \<leftarrow> zip n_days excl. s \<in> set l_excl]))"

subsection \<open>The specification's calendar pattern and constraint system\<close>

text \<open>
  The definitions of this subsection follow the words of the specification (sections 3,
  4.1 and 4.3), to be compared with the notebook's constructions above.
\<close>

record CycleConfig =
  cycle_length :: int
  work_span :: int
  rest_span :: int

definition canonical :: CycleConfig where
  "canonical = \<lparr>cycle_length = 7, work_span = 5, rest_span = 2\<rparr>"

definition spec_on_duty_days :: "int \<Rightarrow> CycleConfig \<Rightarrow> int set" where
  "spec_on_duty_days start cfg =
     (\<lambda>k. (start + k) mod cycle_length cfg) ` {0..<work_span cfg}"

definition spec_off_duty_days :: "int \<Rightarrow> CycleConfig \<Rightarrow> int set" where
  "spec_off_duty_days start cfg =
     (\<lambda>k. (start + k) mod cycle_length cfg) ` {work_span cfg..<work_span cfg + rest_span cfg}"

definition spec_build :: "int list \<Rightarrow> CycleConfig \<Rightarrow> LpProblem" where
  "spec_build demand cfg =
     \<lparr>objective = [0..cycle_length cfg - 1],
      constraints =
        map (\<lambda>d. \<lparr>lhs = [s \<leftarrow> [0..cycle_length cfg - 1]. d \<in> spec_on_duty_days s cfg],
                   rhs = demand ! nat d\<rparr>)
            [0..cycle_length cfg - 1]\<rparr>"

section \<open>The slicings, evaluated\<close>

lemma n_days_eq: "n_days = [0, 1, 2, 3, 4, 5, 6]"
  by code_simp

lemma n_days_c_eq:
  "n_days_c = [0, 1, 2, 3, 4, 5, 6, 0, 1, 2, 3, 4, 5, 6, 0, 1, 2, 3, 4, 5, 6]"
  by code_simp

lemma list_in_eq:
  "list_in = Inr
     [[0, 1, 2, 3, 4], [1, 2, 3, 4, 5], [2, 3, 4, 5, 6], [3, 4, 5, 6, 0],
      [4, 5, 6, 0, 1], [5, 6, 0, 1, 2], [6, 0, 1, 2, 3], [0, 1, 2, 3, 4],
      [1, 2, 3, 4, 5], [2, 3, 4, 5, 6], [3, 4, 5, 6, 0], [4, 5, 6, 0, 1],
      [5, 6, 0, 1, 2], [6, 0, 1, 2, 3], [0, 1, 2, 3, 4], [1, 2, 3, 4, 5],
      [2, 3, 4, 5, 6], [3, 4, 5, 6, 0], [4, 5, 6, 0, 1], [5, 6, 0, 1, 2],
      [6, 0, 1, 2, 3]]"
  by code_simp

lemma list_excl_eq:
  "list_excl = Inr
     [[1, 2], [2, 3], [3, 4], [4, 5], [5, 6], [6, 0], [0, 1], [1, 2],
      [2, 3], [3, 4], [4, 5], [5, 6], [6, 0], [0, 1], [1, 2], [2, 3],
      [3, 4], [4, 5], [5, 6], [6, 0], [0, 1]]"
  by code_simp

lemma day_cases:
  fixes s :: int
  assumes "0 \<le> s" and "s < 7"
  shows "s = 0 \<or> s = 1 \<or> s = 2 \<or> s = 3 \<or> s = 4 \<or> s = 5 \<or> s = 6"
  using assms by arith

lemma days_upto: "{0..<7::int} = {0, 1, 2, 3, 4, 5, 6}"
  by auto

lemma span_upto: "{0..<5::int} = {0, 1, 2, 3, 4}"
  by auto

lemma getitem_nonneg:
  "0 \<le> j \<Longrightarrow> nat j < length xs \<Longrightarrow> getitem xs j = Inr (xs ! nat j)"
  by (simp add: getitem_def Let_def)

lemma slice_in:
  assumes "0 \<le> s" and "s < 7"
  shows "collect (map (getitem n_days_c) (range_py s (s + 5))) =
         Inr (map (\<lambda>k. (s + k) mod 7) [0, 1, 2, 3, 4])"
proof -
  from assms have "s = 0 \<or> s = 1 \<or> s = 2 \<or> s = 3 \<or> s = 4 \<or> s = 5 \<or> s = 6"
    by (rule day_cases)
  then show ?thesis
    by (elim disjE) (simp_all add: getitem_def n_days_c_eq range_py_def bind_err_def upto_rec1)
qed

lemma slice_excl:
  assumes "0 \<le> d" and "d < 7"
  shows "collect (map (getitem n_days_c) (range_py (d + 1) (d + 3))) =
         Inr [(d + 1) mod 7, (d + 2) mod 7]"
proof -
  from assms have "d = 0 \<or> d = 1 \<or> d = 2 \<or> d = 3 \<or> d = 4 \<or> d = 5 \<or> d = 6"
    by (rule day_cases)
  then show ?thesis
    by (elim disjE) (simp_all add: getitem_def n_days_c_eq range_py_def bind_err_def upto_rec1)
qed

lemma row_in:
  assumes "0 \<le> s" and "s < 7" and "list_in = Inr lin"
  shows "getitem lin s = Inr (map (\<lambda>k. (s + k) mod 7) [0, 1, 2, 3, 4])"
proof -
  from assms(1,2) have "s = 0 \<or> s = 1 \<or> s = 2 \<or> s = 3 \<or> s = 4 \<or> s = 5 \<or> s = 6"
    by (rule day_cases)
  then show ?thesis
    using assms(3) unfolding list_in_eq
    by (elim disjE) (auto simp add: getitem_def)
qed

lemma row_excl:
  assumes "0 \<le> d" and "d < 7" and "list_excl = Inr excl"
  shows "getitem excl d = Inr [(d + 1) mod 7, (d + 2) mod 7]"
proof -
  from assms(1,2) have "d = 0 \<or> d = 1 \<or> d = 2 \<or> d = 3 \<or> d = 4 \<or> d = 5 \<or> d = 6"
    by (rule day_cases)
  then show ?thesis
    using assms(3) unfolding list_excl_eq
    by (elim disjE) (auto simp add: getitem_def)
qed

lemma on_duty_canonical:
  "spec_on_duty_days s canonical = {s mod 7, (s + 1) mod 7, (s + 2) mod 7, (s + 3) mod 7, (s + 4) mod 7}"
  by (simp add: spec_on_duty_days_def canonical_def span_upto)

lemma off_duty_canonical:
  "spec_off_duty_days s canonical = {(s + 5) mod 7, (s + 6) mod 7}"
proof -
  have "{5..<7::int} = {5, 6}" by auto
  then show ?thesis by (simp add: spec_off_duty_days_def canonical_def)
qed

lemma length_seven:
  assumes "length xs = 7"
  obtains a b c d e f g where "xs = [a, b, c, d, e, f, g]"
proof -
  from assms have "length xs = Suc (Suc (Suc (Suc (Suc (Suc (Suc 0))))))" by simp
  then show ?thesis
    using that by (auto simp: length_Suc_conv)
qed

lemma prob_seven:
  "prob [a, b, c, d, e, f, g] = Inr
     \<lparr>objective = [0, 1, 2, 3, 4, 5, 6],
      constraints =
        [\<lparr>lhs = [0, 3, 4, 5, 6], rhs = a\<rparr>, \<lparr>lhs = [0, 1, 4, 5, 6], rhs = b\<rparr>,
         \<lparr>lhs = [0, 1, 2, 5, 6], rhs = c\<rparr>, \<lparr>lhs = [0, 1, 2, 3, 6], rhs = d\<rparr>,
         \<lparr>lhs = [0, 1, 2, 3, 4], rhs = e\<rparr>, \<lparr>lhs = [1, 2, 3, 4, 5], rhs = f\<rparr>,
         \<lparr>lhs = [2, 3, 4, 5, 6], rhs = g\<rparr>]\<rparr>"
  by (simp add: prob_def list_in_eq list_excl_eq n_days_eq bind_err_def)

lemma spec_build_seven:
  "spec_build [a, b, c, d, e, f, g] canonical =
     \<lparr>objective = [0, 1, 2, 3, 4, 5, 6],
      constraints =
        [\<lparr>lhs = [0, 3, 4, 5, 6], rhs = a\<rparr>, \<lparr>lhs = [0, 1, 4, 5, 6], rhs = b\<rparr>,
         \<lparr>lhs = [0, 1, 2, 5, 6], rhs = c\<rparr>, \<lparr>lhs = [0, 1, 2, 3, 6], rhs = d\<rparr>,
         \<lparr>lhs = [0, 1, 2, 3, 4], rhs = e\<rparr>, \<lparr>lhs = [1, 2, 3, 4, 5], rhs = f\<rparr>,
         \<lparr>lhs = [2, 3, 4, 5, 6], rhs = g\<rparr>]\<rparr>"
proof -
  have u: "[0..6::int] = [0, 1, 2, 3, 4, 5, 6]" by (simp add: upto_rec1)
  show ?thesis
    by (simp add: spec_build_def on_duty_canonical u) (simp add: canonical_def u)
qed

section \<open>Safety of the slicing\<close>

text \<open>
  Claim C10. The tripled day list \<open>n_days_c\<close> has 21 elements, each of them a day in
  \<open>[0, 7)\<close>; for each such element \<open>i\<close>, every subscript \<open>j\<close> taken from
  \<open>range(i, i + 5)\<close> and from \<open>range(i + 1, i + 3)\<close> satisfies \<open>0 \<le> j < 21\<close>, so the
  read \<open>n_days_c[j]\<close> does not raise, and both comprehensions return their 21 lists.
\<close>

theorem slicing_in_bounds:
  "length n_days_c = 21 \<and>
   (\<forall>i \<in> set n_days_c. 0 \<le> i \<and> i < 7 \<and>
      (\<forall>j \<in> set (range_py i (i + 5)).
         0 \<le> j \<and> j < 21 \<and> getitem n_days_c j \<noteq> Inl IndexError) \<and>
      (\<forall>j \<in> set (range_py (i + 1) (i + 3)).
         0 \<le> j \<and> j < 21 \<and> getitem n_days_c j \<noteq> Inl IndexError)) \<and>
   (\<exists>lin. list_in = Inr lin \<and> length lin = 21) \<and>
   (\<exists>excl. list_excl = Inr excl \<and> length excl = 21)"
proof -
  have len: "length n_days_c = 21"
    by (simp add: n_days_c_eq)
  have elems: "0 \<le> i \<and> i < 7" if "i \<in> set n_days_c" for i
    using that by (auto simp: n_days_c_eq)
  have get: "getitem n_days_c j \<noteq> Inl IndexError" if "0 \<le> j" "j < 21" for j
    using that by (simp add: getitem_def Let_def len)
  have a: "0 \<le> j \<and> j < 21 \<and> getitem n_days_c j \<noteq> Inl IndexError"
    if "i \<in> set n_days_c" "j \<in> set (range_py i (i + 5))" for i j
  proof -
    from that(2) have "i \<le> j" "j \<le> i + 4" by (simp_all add: range_py_def)
    with elems [OF that(1)] have "0 \<le> j" "j < 21" by arith+
    with get show ?thesis by simp
  qed
  have b: "0 \<le> j \<and> j < 21 \<and> getitem n_days_c j \<noteq> Inl IndexError"
    if "i \<in> set n_days_c" "j \<in> set (range_py (i + 1) (i + 3))" for i j
  proof -
    from that(2) have "i + 1 \<le> j" "j \<le> i + 2" by (simp_all add: range_py_def)
    with elems [OF that(1)] have "0 \<le> j" "j < 21" by arith+
    with get show ?thesis by simp
  qed
  show ?thesis
    using len elems a b by (simp add: list_in_eq list_excl_eq)
qed

theorem slicing_in_bounds_witness:
  "(6::int) \<in> set n_days_c \<and> (10::int) \<in> set (range_py 6 (6 + 5)) \<and>
   (8::int) \<in> set (range_py (6 + 1) (6 + 3)) \<and>
   getitem n_days_c 10 \<noteq> Inl IndexError \<and> getitem n_days_c 8 \<noteq> Inl IndexError"
proof -
  have i: "(6::int) \<in> set n_days_c" by (simp add: n_days_c_eq)
  have j: "(10::int) \<in> set (range_py 6 (6 + 5))" by (simp add: range_py_def)
  have k: "(8::int) \<in> set (range_py (6 + 1) (6 + 3))" by (simp add: range_py_def)
  from slicing_in_bounds i j k show ?thesis by blast
qed

section \<open>The calendar pattern\<close>

text \<open>
  Claim C5. For every start day \<open>s\<close> in \<open>[0, 7)\<close>, the working-day list that the
  comprehension builds from \<open>range(s, s + 5)\<close> over the tripled list, which is entry \<open>s\<close>
  of \<open>list_in\<close>, has as its set of days \<open>{(s + k) mod 7 : k in [0, 5)}\<close>.
\<close>

theorem working_days_set:
  "0 \<le> s \<and> s < 7 \<longrightarrow>
     (\<exists>lin l. list_in = Inr lin \<and> getitem lin s = Inr l \<and>
        collect (map (getitem n_days_c) (range_py s (s + 5))) = Inr l \<and>
        set l = (\<lambda>k. (s + k) mod 7) ` {0..<5})"
proof
  assume s: "0 \<le> s \<and> s < 7"
  let ?l = "map (\<lambda>k. (s + k) mod 7) [0, 1, 2, 3, 4]"
  obtain lin where lin: "list_in = Inr lin"
    by (simp add: list_in_eq)
  from s lin have "getitem lin s = Inr ?l"
    by (simp add: row_in)
  moreover from s have "collect (map (getitem n_days_c) (range_py s (s + 5))) = Inr ?l"
    by (simp add: slice_in)
  moreover have "set ?l = (\<lambda>k. (s + k) mod 7) ` {0..<5}"
    by (simp add: span_upto)
  ultimately show "\<exists>lin l. list_in = Inr lin \<and> getitem lin s = Inr l \<and>
        collect (map (getitem n_days_c) (range_py s (s + 5))) = Inr l \<and>
        set l = (\<lambda>k. (s + k) mod 7) ` {0..<5}"
    using lin by blast
qed

theorem working_days_set_witness:
  "(0::int) \<le> 4 \<and> (4::int) < 7 \<and>
   (\<exists>lin l. list_in = Inr lin \<and> getitem lin 4 = Inr l \<and> set l = {4, 5, 6, 0, 1})"
proof -
  have "(\<lambda>k. (4 + k) mod 7) ` {0..<5::int} = {4, 5, 6, 0, 1}"
    by (simp add: span_upto)
  with working_days_set [of 4] show ?thesis
    by auto
qed

section \<open>The exclusion window against the coverage constraints\<close>

lemma excluded_complement:
  assumes "0 \<le> d" and "d < 7"
  shows "{(d + 1) mod 7, (d + 2) mod 7} = {s \<in> {0..<7}. d \<notin> spec_on_duty_days s canonical}"
proof -
  from assms have "d = 0 \<or> d = 1 \<or> d = 2 \<or> d = 3 \<or> d = 4 \<or> d = 5 \<or> d = 6"
    by (rule day_cases)
  then show ?thesis
    unfolding days_upto on_duty_canonical
    by (elim disjE) (simp_all, auto)
qed

text \<open>
  Claim C2. For every day \<open>d\<close> in \<open>[0, 7)\<close>, the start days that the constraint loop
  leaves out of day \<open>d\<close>'s sum, entry \<open>d\<close> of \<open>list_excl\<close>, are \<open>(d + 1) mod 7\<close> and
  \<open>(d + 2) mod 7\<close>, and these are exactly the start days in \<open>[0, 7)\<close> whose on-duty set
  (five days from the start day, modulo 7) misses \<open>d\<close>. The variables kept by the loop are
  therefore those of the coverage constraint, in the same order, and for every demand
  vector of length 7 the problem the notebook builds is the problem of section 4.3 of the
  specification, objective and constraints alike.
\<close>

theorem exclusion_window_is_coverage:
  "(0 \<le> d \<and> d < 7 \<longrightarrow>
      (\<exists>excl l. list_excl = Inr excl \<and> getitem excl d = Inr l \<and>
         set l = {(d + 1) mod 7, (d + 2) mod 7} \<and>
         set l = {s \<in> {0..<7}. d \<notin> spec_on_duty_days s canonical} \<and>
         [i \<leftarrow> n_days. i \<notin> set l] = [s \<leftarrow> n_days. d \<in> spec_on_duty_days s canonical])) \<and>
   (length demand = 7 \<longrightarrow> prob demand = Inr (spec_build demand canonical))"
proof (intro conjI impI)
  assume d: "0 \<le> d \<and> d < 7"
  let ?l = "[(d + 1) mod 7, (d + 2) mod 7]"
  obtain excl where excl: "list_excl = Inr excl"
    by (simp add: list_excl_eq)
  from d excl have row: "getitem excl d = Inr ?l"
    by (simp add: row_excl)
  from d have compl: "set ?l = {s \<in> {0..<7}. d \<notin> spec_on_duty_days s canonical}"
    using excluded_complement [of d] by simp
  have "[i \<leftarrow> n_days. i \<notin> set ?l] = [s \<leftarrow> n_days. d \<in> spec_on_duty_days s canonical]"
  proof (rule filter_cong [OF refl])
    fix s assume "s \<in> set n_days"
    then have "s \<in> {0..<7}" by (auto simp: n_days_eq)
    with compl show "(s \<notin> set ?l) = (d \<in> spec_on_duty_days s canonical)" by blast
  qed
  with excl row compl
  show "\<exists>excl l. list_excl = Inr excl \<and> getitem excl d = Inr l \<and>
         set l = {(d + 1) mod 7, (d + 2) mod 7} \<and>
         set l = {s \<in> {0..<7}. d \<notin> spec_on_duty_days s canonical} \<and>
         [i \<leftarrow> n_days. i \<notin> set l] = [s \<leftarrow> n_days. d \<in> spec_on_duty_days s canonical]"
    by (intro exI [of _ excl] exI [of _ ?l]) simp
next
  assume "length demand = 7"
  then obtain a b c d e f g where "demand = [a, b, c, d, e, f, g]"
    by (rule length_seven)
  then show "prob demand = Inr (spec_build demand canonical)"
    by (simp only: prob_seven spec_build_seven)
qed

theorem exclusion_window_is_coverage_witness:
  "(0::int) \<le> 5 \<and> (5::int) < 7 \<and> length n_staff = 7 \<and>
   (\<exists>excl l. list_excl = Inr excl \<and> getitem excl 5 = Inr l \<and> set l = {6, 0} \<and>
      [i \<leftarrow> n_days. i \<notin> set l] = [1, 2, 3, 4, 5]) \<and>
   prob n_staff = Inr (spec_build n_staff canonical)"
proof -
  have len: "length n_staff = 7" by (simp add: n_staff_def)
  have "[s \<leftarrow> n_days. (5::int) \<in> spec_on_duty_days s canonical] = [1, 2, 3, 4, 5]"
    by (simp add: n_days_eq on_duty_canonical)
  with exclusion_window_is_coverage [of 5 n_staff] len show ?thesis
    by auto
qed

section \<open>Feasible and optimal assignments\<close>

lemma feasible_seven:
  assumes "prob [a, b, c, d, e, f, g] = Inr p"
  shows "feasible p v =
     ((0 \<le> v 0 \<and> 0 \<le> v 1 \<and> 0 \<le> v 2 \<and> 0 \<le> v 3 \<and> 0 \<le> v 4 \<and> 0 \<le> v 5 \<and> 0 \<le> v 6) \<and>
      a \<le> v 0 + v 3 + v 4 + v 5 + v 6 \<and>
      b \<le> v 0 + v 1 + v 4 + v 5 + v 6 \<and>
      c \<le> v 0 + v 1 + v 2 + v 5 + v 6 \<and>
      d \<le> v 0 + v 1 + v 2 + v 3 + v 6 \<and>
      e \<le> v 0 + v 1 + v 2 + v 3 + v 4 \<and>
      f \<le> v 1 + v 2 + v 3 + v 4 + v 5 \<and>
      g \<le> v 2 + v 3 + v 4 + v 5 + v 6)"
  using assms unfolding prob_seven
  by (auto simp add: feasible_def satisfies_def value_of_def n_days_eq)

lemma total_seven:
  assumes "prob [a, b, c, d, e, f, g] = Inr p"
  shows "total_staff p v = v 0 + v 1 + v 2 + v 3 + v 4 + v 5 + v 6"
  using assms unfolding prob_seven
  by (auto simp add: total_staff_def value_of_def add.assoc)

lemma sum_seven_rows:
  fixes a b c d e f g :: int
  assumes "a \<le> v0 + v3 + v4 + v5 + v6" and "b \<le> v0 + v1 + v4 + v5 + v6"
    and "c \<le> v0 + v1 + v2 + v5 + v6" and "d \<le> v0 + v1 + v2 + v3 + v6"
    and "e \<le> v0 + v1 + v2 + v3 + v4" and "f \<le> v1 + v2 + v3 + v4 + v5"
    and "g \<le> v2 + v3 + v4 + v5 + v6"
  shows "a + b + c + d + e + f + g \<le> 5 * (v0 + v1 + v2 + v3 + v4 + v5 + v6)"
proof -
  have "a + b + c + d + e + f + g \<le>
        (v0 + v3 + v4 + v5 + v6) + (v0 + v1 + v4 + v5 + v6) + (v0 + v1 + v2 + v5 + v6) +
        (v0 + v1 + v2 + v3 + v6) + (v0 + v1 + v2 + v3 + v4) + (v1 + v2 + v3 + v4 + v5) +
        (v2 + v3 + v4 + v5 + v6)"
    by (intro add_mono assms)
  also have "\<dots> = 5 * (v0 + v1 + v2 + v3 + v4 + v5 + v6)"
    by simp
  finally show ?thesis .
qed

lemma five_fold_cover:
  assumes "prob demand = Inr p" and "length demand = 7" and "feasible p v"
  shows "sum_list demand \<le> 5 * total_staff p v"
proof -
  from assms(2) obtain a b c d e f g where dem: "demand = [a, b, c, d, e, f, g]"
    by (rule length_seven)
  from assms(1) have p: "prob [a, b, c, d, e, f, g] = Inr p"
    by (simp add: dem)
  from assms(3) have
    "a \<le> v 0 + v 3 + v 4 + v 5 + v 6" "b \<le> v 0 + v 1 + v 4 + v 5 + v 6"
    "c \<le> v 0 + v 1 + v 2 + v 5 + v 6" "d \<le> v 0 + v 1 + v 2 + v 3 + v 6"
    "e \<le> v 0 + v 1 + v 2 + v 3 + v 4" "f \<le> v 1 + v 2 + v 3 + v 4 + v 5"
    "g \<le> v 2 + v 3 + v 4 + v 5 + v 6"
    by (simp_all add: feasible_seven [OF p])
  then have "a + b + c + d + e + f + g \<le> 5 * (v 0 + v 1 + v 2 + v 3 + v 4 + v 5 + v 6)"
    by (rule sum_seven_rows)
  then show ?thesis
    by (simp add: dem total_seven [OF p])
qed

lemma notebook_solution_feasible:
  assumes "prob n_staff = Inr p"
  shows "feasible p (\<lambda>i. [17, 14, 6, 0, 11, 0, 3] ! nat i)"
  by (simp add: feasible_seven [OF assms [unfolded n_staff_def]])

lemma notebook_solution_total:
  assumes "prob n_staff = Inr p"
  shows "total_staff p (\<lambda>i. [17, 14, 6, 0, 11, 0, 3] ! nat i) = (51::int)"
  by (simp add: total_seven [OF assms [unfolded n_staff_def]])

lemma n_staff_bound:
  assumes "prob n_staff = Inr p" and "feasible p v"
  shows "51 \<le> total_staff p v"
proof -
  have "length n_staff = 7" by (simp add: n_staff_def)
  with assms have "sum_list n_staff \<le> 5 * total_staff p v"
    by (simp add: five_fold_cover)
  then show ?thesis
    by (simp add: n_staff_def)
qed

lemma notebook_solution_optimal:
  assumes "prob n_staff = Inr p"
  shows "optimal p (\<lambda>i. [17, 14, 6, 0, 11, 0, 3] ! nat i)"
  unfolding optimal_def
  using notebook_solution_feasible [OF assms] notebook_solution_total [OF assms]
    n_staff_bound [OF assms]
  by (simp add: total_staff_def)

lemma cohort_sum:
  "(\<Sum>s \<in> {s \<in> {0..<7}. P s}. v s) = value_of v [s \<leftarrow> n_days. P s]"
proof -
  have "set n_days = {0..<7}"
    by (simp add: n_days_eq days_upto)
  then have "set [s \<leftarrow> n_days. P s] = {s \<in> {0..<7}. P s}"
    by (simp only: set_filter)
  moreover have "distinct n_days"
    by (simp add: n_days_eq)
  then have "distinct [s \<leftarrow> n_days. P s]"
    by (rule distinct_filter)
  ultimately show ?thesis
    by (simp add: value_of_def sum_list_distinct_conv_sum_set)
qed

lemma constraint_row:
  assumes "0 \<le> d" and "d < 7" and "length demand = 7" and "prob demand = Inr p"
  shows "constraints p ! nat d =
         \<lparr>lhs = [s \<leftarrow> n_days. d \<in> spec_on_duty_days s canonical], rhs = demand ! nat d\<rparr>"
proof -
  from assms(3) obtain a b c e f g h where dem: "demand = [a, b, c, e, f, g, h]"
    by (rule length_seven)
  from assms(1,2) have "d = 0 \<or> d = 1 \<or> d = 2 \<or> d = 3 \<or> d = 4 \<or> d = 5 \<or> d = 6"
    by (rule day_cases)
  moreover from assms(4) have "constraints p =
        [\<lparr>lhs = [0, 3, 4, 5, 6], rhs = a\<rparr>, \<lparr>lhs = [0, 1, 4, 5, 6], rhs = b\<rparr>,
         \<lparr>lhs = [0, 1, 2, 5, 6], rhs = c\<rparr>, \<lparr>lhs = [0, 1, 2, 3, 6], rhs = e\<rparr>,
         \<lparr>lhs = [0, 1, 2, 3, 4], rhs = f\<rparr>, \<lparr>lhs = [1, 2, 3, 4, 5], rhs = g\<rparr>,
         \<lparr>lhs = [2, 3, 4, 5, 6], rhs = h\<rparr>]"
    unfolding dem prob_seven by auto
  ultimately show ?thesis
    by (elim disjE) (simp_all add: dem n_days_eq on_duty_canonical)
qed

lemma constraints_length:
  assumes "length demand = 7" and "prob demand = Inr p"
  shows "length (constraints p) = 7"
proof -
  from assms(1) obtain a b c e f g h where dem: "demand = [a, b, c, e, f, g, h]"
    by (rule length_seven)
  from assms(2) show ?thesis
    unfolding dem prob_seven by auto
qed

text \<open>
  Claim C1. For every demand vector of length 7 the notebook builds a problem with seven
  constraints, the one for day \<open>d\<close> being: the sum of \<open>x[s]\<close> over the start days \<open>s\<close>
  whose on-duty set holds \<open>d\<close> is at least \<open>demand[d]\<close>. Every assignment that is optimal
  for that problem satisfies all seven inequalities.
\<close>

theorem coverage_constraints:
  assumes "length demand = 7"
  shows "\<exists>p. prob demand = Inr p \<and> length (constraints p) = 7 \<and>
     (\<forall>d. 0 \<le> d \<and> d < 7 \<longrightarrow>
        constraints p ! nat d =
          \<lparr>lhs = [s \<leftarrow> n_days. d \<in> spec_on_duty_days s canonical], rhs = demand ! nat d\<rparr>) \<and>
     (\<forall>v. optimal p v \<longrightarrow>
        (\<forall>d. 0 \<le> d \<and> d < 7 \<longrightarrow>
           demand ! nat d \<le> (\<Sum>s \<in> {s \<in> {0..<7}. d \<in> spec_on_duty_days s canonical}. v s)))"
proof -
  from assms obtain a b c e f g h where dem: "demand = [a, b, c, e, f, g, h]"
    by (rule length_seven)
  obtain p where p: "prob demand = Inr p"
    by (simp add: dem prob_seven)
  have len: "length (constraints p) = 7"
    using assms p by (rule constraints_length)
  have row: "constraints p ! nat d =
      \<lparr>lhs = [s \<leftarrow> n_days. d \<in> spec_on_duty_days s canonical], rhs = demand ! nat d\<rparr>"
    if "0 \<le> d \<and> d < 7" for d
    using that assms p by (simp add: constraint_row)
  have cover: "demand ! nat d \<le> (\<Sum>s \<in> {s \<in> {0..<7}. d \<in> spec_on_duty_days s canonical}. v s)"
    if opt: "optimal p v" and d: "0 \<le> d \<and> d < 7" for v d
  proof -
    from opt have "list_all (satisfies v) (constraints p)"
      by (simp add: optimal_def feasible_def)
    moreover from d len have "nat d < length (constraints p)"
      by arith
    ultimately have "satisfies v (constraints p ! nat d)"
      by (simp add: list_all_length)
    then have "demand ! nat d \<le> value_of v [s \<leftarrow> n_days. d \<in> spec_on_duty_days s canonical]"
      by (simp add: row [OF d] satisfies_def)
    then show ?thesis
      by (simp only: cohort_sum)
  qed
  show ?thesis
  proof (intro exI [of _ p] conjI allI impI)
    show "prob demand = Inr p" by (rule p)
    show "length (constraints p) = 7" by (rule len)
    show "constraints p ! nat d =
      \<lparr>lhs = [s \<leftarrow> n_days. d \<in> spec_on_duty_days s canonical], rhs = demand ! nat d\<rparr>"
      if "0 \<le> d \<and> d < 7" for d using that by (rule row)
    show "demand ! nat d \<le> (\<Sum>s \<in> {s \<in> {0..<7}. d \<in> spec_on_duty_days s canonical}. v s)"
      if "optimal p v" and "0 \<le> d \<and> d < 7" for v d using that by (rule cover)
  qed
qed

theorem coverage_constraints_witness:
  "length n_staff = 7 \<and>
   (\<exists>p. prob n_staff = Inr p \<and> optimal p (\<lambda>i. [17, 14, 6, 0, 11, 0, 3] ! nat i) \<and>
      constraints p ! nat 4 =
        \<lparr>lhs = [s \<leftarrow> n_days. 4 \<in> spec_on_duty_days s canonical], rhs = n_staff ! nat 4\<rparr> \<and>
      n_staff ! nat 4 \<le>
        (\<Sum>s \<in> {s \<in> {0..<7}. 4 \<in> spec_on_duty_days s canonical}. [17, 14, 6, 0, 11, 0, 3] ! nat s))"
proof -
  have len: "length n_staff = 7" by (simp add: n_staff_def)
  from coverage_constraints [OF len] obtain p where p: "prob n_staff = Inr p"
    and row: "\<forall>d. 0 \<le> d \<and> d < 7 \<longrightarrow>
        constraints p ! nat d =
          \<lparr>lhs = [s \<leftarrow> n_days. d \<in> spec_on_duty_days s canonical], rhs = n_staff ! nat d\<rparr>"
    and cover: "\<forall>v. optimal p v \<longrightarrow>
        (\<forall>d. 0 \<le> d \<and> d < 7 \<longrightarrow>
           n_staff ! nat d \<le> (\<Sum>s \<in> {s \<in> {0..<7}. d \<in> spec_on_duty_days s canonical}. v s))"
    by blast
  have day: "(0::int) \<le> 4 \<and> (4::int) < 7" by simp
  have opt: "optimal p (\<lambda>i. [17, 14, 6, 0, 11, 0, 3] ! nat i)"
    using p by (rule notebook_solution_optimal)
  have r: "constraints p ! nat 4 =
        \<lparr>lhs = [s \<leftarrow> n_days. 4 \<in> spec_on_duty_days s canonical], rhs = n_staff ! nat 4\<rparr>"
    by (rule row [rule_format, OF day])
  have c: "n_staff ! nat 4 \<le>
        (\<Sum>s \<in> {s \<in> {0..<7}. 4 \<in> spec_on_duty_days s canonical}. [17, 14, 6, 0, 11, 0, 3] ! nat s)"
    by (rule cover [rule_format, OF opt day])
  from len p opt r c show ?thesis
    by (intro conjI exI [of _ p])
qed

text \<open>
  Claim C8. For every demand vector of length 7 and every assignment that is feasible for
  the problem built from it (non-negative integers meeting all seven coverage
  constraints), the total headcount is at least the sum of the demands divided by 5,
  rounded up; in particular this holds of every optimal assignment.
\<close>

theorem headcount_lower_bound:
  assumes "length demand = 7" and "prob demand = Inr p"
  shows "(feasible p v \<longrightarrow> \<lceil>real_of_int (sum_list demand) / 5\<rceil> \<le> total_staff p v) \<and>
         (optimal p v \<longrightarrow> \<lceil>real_of_int (sum_list demand) / 5\<rceil> \<le> total_staff p v)"
proof -
  have bound: "\<lceil>real_of_int (sum_list demand) / 5\<rceil> \<le> total_staff p v" if "feasible p v"
  proof -
    from assms that have "sum_list demand \<le> 5 * total_staff p v"
      by (simp add: five_fold_cover)
    then have "real_of_int (sum_list demand) \<le> 5 * real_of_int (total_staff p v)"
      by linarith
    then have "real_of_int (sum_list demand) / 5 \<le> real_of_int (total_staff p v)"
      by simp
    then show ?thesis
      by (simp add: ceiling_le_iff)
  qed
  then show ?thesis
    by (simp add: optimal_def)
qed

theorem headcount_lower_bound_witness:
  "length n_staff = 7 \<and>
   (\<exists>p. prob n_staff = Inr p \<and> feasible p (\<lambda>i. [17, 14, 6, 0, 11, 0, 3] ! nat i) \<and>
        optimal p (\<lambda>i. [17, 14, 6, 0, 11, 0, 3] ! nat i) \<and>
        \<lceil>real_of_int (sum_list n_staff) / 5\<rceil> \<le> total_staff p (\<lambda>i. [17, 14, 6, 0, 11, 0, 3] ! nat i))"
proof -
  have len: "length n_staff = 7" by (simp add: n_staff_def)
  obtain p where p: "prob n_staff = Inr p"
    by (simp add: n_staff_def prob_seven)
  have f: "feasible p (\<lambda>i. [17, 14, 6, 0, 11, 0, 3] ! nat i)"
    using p by (rule notebook_solution_feasible)
  have opt: "optimal p (\<lambda>i. [17, 14, 6, 0, 11, 0, 3] ! nat i)"
    using p by (rule notebook_solution_optimal)
  have "\<lceil>real_of_int (sum_list n_staff) / 5\<rceil> \<le> total_staff p (\<lambda>i. [17, 14, 6, 0, 11, 0, 3] ! nat i)"
    by (rule headcount_lower_bound [OF len p, THEN conjunct1, rule_format, OF f])
  with len p f opt show ?thesis
    by (intro conjI exI [of _ p])
qed

text \<open>
  Claim C3. For the demand vector \<open>[31, 45, 40, 40, 48, 30, 20]\<close> the optimal objective
  value is 51: some feasible assignment has total 51, no feasible assignment has a smaller
  total, and so every optimal assignment has total exactly 51.
\<close>

theorem optimum_51:
  "\<exists>p. prob n_staff = Inr p \<and>
     (\<exists>v. feasible p v \<and> total_staff p v = 51) \<and>
     (\<forall>v. feasible p v \<longrightarrow> 51 \<le> total_staff p v) \<and>
     (\<forall>v. optimal p v \<longrightarrow> total_staff p v = 51)"
proof -
  obtain p where p: "prob n_staff = Inr p"
    by (simp add: n_staff_def prob_seven)
  let ?v = "\<lambda>i::int. [17, 14, 6, 0, 11, 0, 3::int] ! nat i"
  have ex: "feasible p ?v \<and> total_staff p ?v = 51"
    using notebook_solution_feasible [OF p] notebook_solution_total [OF p] by simp
  have lower: "51 \<le> total_staff p v" if "feasible p v" for v
    using p that by (rule n_staff_bound)
  have opt: "total_staff p v = 51" if "optimal p v" for v
  proof -
    from that have f: "feasible p v" and "total_staff p v \<le> total_staff p ?v"
      using ex by (auto simp: optimal_def total_staff_def)
    with ex lower [OF f] show ?thesis by simp
  qed
  show ?thesis
  proof (intro exI [of _ p] conjI allI impI)
    show "prob n_staff = Inr p" by (rule p)
    show "\<exists>v. feasible p v \<and> total_staff p v = 51" by (rule exI [of _ ?v]) (rule ex)
    show "51 \<le> total_staff p v" if "feasible p v" for v using that by (rule lower)
    show "total_staff p v = 51" if "optimal p v" for v using that by (rule opt)
  qed
qed

theorem optimum_51_witness:
  "\<exists>p. prob n_staff = Inr p \<and>
     feasible p (\<lambda>i. [17, 14, 6, 0, 11, 0, 3] ! nat i) \<and>
     optimal p (\<lambda>i. [17, 14, 6, 0, 11, 0, 3] ! nat i) \<and>
     (51::int) \<le> total_staff p (\<lambda>i. [17, 14, 6, 0, 11, 0, 3] ! nat i) \<and>
     total_staff p (\<lambda>i. [17, 14, 6, 0, 11, 0, 3] ! nat i) = (51::int)"
proof -
  from optimum_51 obtain p where p: "prob n_staff = Inr p"
    and lower: "\<forall>v. feasible p v \<longrightarrow> 51 \<le> total_staff p v"
    and opt: "\<forall>v. optimal p v \<longrightarrow> total_staff p v = 51"
    by blast
  have f: "feasible p (\<lambda>i. [17, 14, 6, 0, 11, 0, 3] ! nat i)"
    using p by (rule notebook_solution_feasible)
  have o: "optimal p (\<lambda>i. [17, 14, 6, 0, 11, 0, 3] ! nat i)"
    using p by (rule notebook_solution_optimal)
  have l: "(51::int) \<le> total_staff p (\<lambda>i. [17, 14, 6, 0, 11, 0, 3] ! nat i)"
    by (rule lower [rule_format, OF f])
  have t: "total_staff p (\<lambda>i. [17, 14, 6, 0, 11, 0, 3] ! nat i) = (51::int)"
    by (rule opt [rule_format, OF o])
  from p f o l t show ?thesis
    by (intro conjI exI [of _ p])
qed

section \<open>The schedule report\<close>











section \<open>On-duty and off-duty days of a start day\<close>

lemma days_off_eq:
  assumes "0 \<le> s" and "s < 7"
  shows "\<exists>off. days_off s = Inr off \<and> set off = {(s + 5) mod 7, (s + 6) mod 7}"
proof -
  from assms have "s = 0 \<or> s = 1 \<or> s = 2 \<or> s = 3 \<or> s = 4 \<or> s = 5 \<or> s = 6"
    by (rule day_cases)
  then show ?thesis
    by (elim disjE) (auto simp add: days_off_def list_excl_eq n_days_eq bind_err_def)
qed

lemma on_off_sets:
  fixes s :: int
  assumes "0 \<le> s" and "s < 7"
  shows "{s mod 7, (s + 1) mod 7, (s + 2) mod 7, (s + 3) mod 7, (s + 4) mod 7} \<inter>
           {(s + 5) mod 7, (s + 6) mod 7} = {} \<and>
         {s mod 7, (s + 1) mod 7, (s + 2) mod 7, (s + 3) mod 7, (s + 4) mod 7} \<union>
           {(s + 5) mod 7, (s + 6) mod 7} = {0..<7}"
proof -
  from assms have "s = 0 \<or> s = 1 \<or> s = 2 \<or> s = 3 \<or> s = 4 \<or> s = 5 \<or> s = 6"
    by (rule day_cases)
  then show ?thesis
    unfolding days_upto
    by (elim disjE) (simp_all, auto)
qed

text \<open>
  The off-duty days of a start day are read off the problem itself: \<open>d\<close> is an off-duty
  day of \<open>s\<close> exactly when the constraint of day \<open>d\<close> leaves \<open>x[s]\<close> out.
\<close>

lemma days_off_left_out:
  assumes "0 \<le> s" and "s < 7" and "0 \<le> d" and "d < 7"
    and "length demand = 7" and "prob demand = Inr p" and "days_off s = Inr off"
  shows "(d \<in> set off) = (s \<notin> set (lhs (constraints p ! nat d)))"
proof -
  from assms(5) obtain a b c e f g h where dem: "demand = [a, b, c, e, f, g, h]"
    by (rule length_seven)
  from assms(1,2) have s: "s = 0 \<or> s = 1 \<or> s = 2 \<or> s = 3 \<or> s = 4 \<or> s = 5 \<or> s = 6"
    by (rule day_cases)
  from assms(3,4) have d: "d = 0 \<or> d = 1 \<or> d = 2 \<or> d = 3 \<or> d = 4 \<or> d = 5 \<or> d = 6"
    by (rule day_cases)
  from assms(6) have rows: "constraints p =
        [\<lparr>lhs = [0, 3, 4, 5, 6], rhs = a\<rparr>, \<lparr>lhs = [0, 1, 4, 5, 6], rhs = b\<rparr>,
         \<lparr>lhs = [0, 1, 2, 5, 6], rhs = c\<rparr>, \<lparr>lhs = [0, 1, 2, 3, 6], rhs = e\<rparr>,
         \<lparr>lhs = [0, 1, 2, 3, 4], rhs = f\<rparr>, \<lparr>lhs = [1, 2, 3, 4, 5], rhs = g\<rparr>,
         \<lparr>lhs = [2, 3, 4, 5, 6], rhs = h\<rparr>]"
    unfolding dem prob_seven by auto
  from assms(1,2,7) have off: "set off = {(s + 5) mod 7, (s + 6) mod 7}"
    using days_off_eq [of s] by auto
  from s d show ?thesis
    unfolding off rows
    by (elim disjE) simp_all
qed

text \<open>
  Claim C6. For every start day \<open>s\<close> in \<open>[0, 7)\<close>, the on-duty days of \<open>s\<close> (entry \<open>s\<close>
  of \<open>list_in\<close>) and its off-duty days (the days whose exclusion list holds \<open>s\<close>) are
  disjoint, the off-duty days are \<open>{(s + k) mod 7 : k in [5, 7)}\<close>, and together the two
  sets are the whole cycle \<open>{0, ..., 6}\<close>. They are the on-duty and off-duty sets of
  section 4.1 of the specification.
\<close>

theorem on_off_partition:
  "0 \<le> s \<and> s < 7 \<longrightarrow>
     (\<exists>lin on off. list_in = Inr lin \<and> getitem lin s = Inr on \<and> days_off s = Inr off \<and>
        set on \<inter> set off = {} \<and>
        set off = (\<lambda>k. (s + k) mod 7) ` {5..<7} \<and>
        set on \<union> set off = {0..<7} \<and>
        set on = spec_on_duty_days s canonical \<and>
        set off = spec_off_duty_days s canonical)"
proof
  assume s: "0 \<le> s \<and> s < 7"
  let ?on = "map (\<lambda>k. (s + k) mod 7) [0, 1, 2, 3, 4]"
  obtain lin where lin: "list_in = Inr lin"
    by (simp add: list_in_eq)
  from s lin have row: "getitem lin s = Inr ?on"
    by (simp add: row_in)
  from s obtain off where off: "days_off s = Inr off"
    and off_set: "set off = {(s + 5) mod 7, (s + 6) mod 7}"
    using days_off_eq [of s] by blast
  have on_set: "set ?on = {s mod 7, (s + 1) mod 7, (s + 2) mod 7, (s + 3) mod 7, (s + 4) mod 7}"
    by simp
  have "{5..<7::int} = {5, 6}" by auto
  then have img: "(\<lambda>k. (s + k) mod 7) ` {5..<7} = {(s + 5) mod 7, (s + 6) mod 7}"
    by simp
  from s have part: "set ?on \<inter> set off = {} \<and> set ?on \<union> set off = {0..<7}"
    unfolding on_set off_set by (simp only: on_off_sets)
  show "\<exists>lin on off. list_in = Inr lin \<and> getitem lin s = Inr on \<and> days_off s = Inr off \<and>
        set on \<inter> set off = {} \<and>
        set off = (\<lambda>k. (s + k) mod 7) ` {5..<7} \<and>
        set on \<union> set off = {0..<7} \<and>
        set on = spec_on_duty_days s canonical \<and>
        set off = spec_off_duty_days s canonical"
  proof (rule exI [of _ lin], rule exI [of _ ?on], rule exI [of _ off], intro conjI)
    show "list_in = Inr lin" by (rule lin)
    show "getitem lin s = Inr ?on" by (rule row)
    show "days_off s = Inr off" by (rule off)
    show "set ?on \<inter> set off = {}" using part by (rule conjunct1)
    show "set off = (\<lambda>k. (s + k) mod 7) ` {5..<7}" by (simp only: off_set img)
    show "set ?on \<union> set off = {0..<7}" using part by (rule conjunct2)
    show "set ?on = spec_on_duty_days s canonical" by (simp only: on_set on_duty_canonical)
    show "set off = spec_off_duty_days s canonical" by (simp only: off_set off_duty_canonical)
  qed
qed

theorem on_off_partition_witness:
  "(0::int) \<le> 4 \<and> (4::int) < 7 \<and>
   (\<exists>lin on off. list_in = Inr lin \<and> getitem lin 4 = Inr on \<and> days_off 4 = Inr off \<and>
      set on = {4, 5, 6, 0, 1} \<and> set off = {2, 3})"
proof -
  have on: "spec_on_duty_days 4 canonical = {4, 5, 6, 0, 1}"
    by (simp add: on_duty_canonical)
  have off: "spec_off_duty_days 4 canonical = {2, 3}"
    by (simp add: off_duty_canonical)
  from on_off_partition [of 4] on off show ?thesis
    by auto
qed

lemma on_duty_count:
  assumes "0 \<le> d" and "d < 7"
  shows "card {s \<in> {0..<7}. d \<in> spec_on_duty_days s canonical} = 5"
proof -
  have "{s \<in> {0..<7}. d \<in> spec_on_duty_days s canonical} =
        {0..<7} - {s \<in> {0..<7}. d \<notin> spec_on_duty_days s canonical}"
    by auto
  also have "\<dots> = {0..<7} - {(d + 1) mod 7, (d + 2) mod 7}"
    using assms by (simp only: excluded_complement)
  finally have eq: "{s \<in> {0..<7}. d \<in> spec_on_duty_days s canonical} =
        {0..<7} - {(d + 1) mod 7, (d + 2) mod 7}" .
  from assms have "d = 0 \<or> d = 1 \<or> d = 2 \<or> d = 3 \<or> d = 4 \<or> d = 5 \<or> d = 6"
    by (rule day_cases)
  then have "card ({0..<7} - {(d + 1) mod 7, (d + 2) mod 7}) = 5"
    unfolding days_upto
    by (elim disjE) simp_all
  then show ?thesis
    by (simp only: eq)
qed

lemma list_in_count:
  assumes "0 \<le> d" and "d < 7" and "list_in = Inr lin"
  shows "length [s \<leftarrow> n_days. case getitem lin s of Inl _ \<Rightarrow> False | Inr l \<Rightarrow> d \<in> set l] = 5"
proof -
  from assms(1,2) have "d = 0 \<or> d = 1 \<or> d = 2 \<or> d = 3 \<or> d = 4 \<or> d = 5 \<or> d = 6"
    by (rule day_cases)
  moreover from assms(3) have "lin = [[0, 1, 2, 3, 4], [1, 2, 3, 4, 5], [2, 3, 4, 5, 6], [3, 4, 5, 6, 0],
      [4, 5, 6, 0, 1], [5, 6, 0, 1, 2], [6, 0, 1, 2, 3], [0, 1, 2, 3, 4],
      [1, 2, 3, 4, 5], [2, 3, 4, 5, 6], [3, 4, 5, 6, 0], [4, 5, 6, 0, 1],
      [5, 6, 0, 1, 2], [6, 0, 1, 2, 3], [0, 1, 2, 3, 4], [1, 2, 3, 4, 5],
      [2, 3, 4, 5, 6], [3, 4, 5, 6, 0], [4, 5, 6, 0, 1], [5, 6, 0, 1, 2],
      [6, 0, 1, 2, 3]]"
    by (simp add: list_in_eq)
  ultimately show ?thesis
    by (elim disjE) (simp_all add: n_days_eq getitem_def)
qed

lemma constraint_vars:
  assumes "0 \<le> d" and "d < 7" and "length demand = 7" and "prob demand = Inr p"
  shows "length (lhs (constraints p ! nat d)) = 5 \<and> distinct (lhs (constraints p ! nat d)) \<and>
         set (lhs (constraints p ! nat d)) \<subseteq> set n_days"
proof -
  from assms(3) obtain a b c e f g h where dem: "demand = [a, b, c, e, f, g, h]"
    by (rule length_seven)
  from assms(1,2) have "d = 0 \<or> d = 1 \<or> d = 2 \<or> d = 3 \<or> d = 4 \<or> d = 5 \<or> d = 6"
    by (rule day_cases)
  moreover from assms(4) have "constraints p =
        [\<lparr>lhs = [0, 3, 4, 5, 6], rhs = a\<rparr>, \<lparr>lhs = [0, 1, 4, 5, 6], rhs = b\<rparr>,
         \<lparr>lhs = [0, 1, 2, 5, 6], rhs = c\<rparr>, \<lparr>lhs = [0, 1, 2, 3, 6], rhs = e\<rparr>,
         \<lparr>lhs = [0, 1, 2, 3, 4], rhs = f\<rparr>, \<lparr>lhs = [1, 2, 3, 4, 5], rhs = g\<rparr>,
         \<lparr>lhs = [2, 3, 4, 5, 6], rhs = h\<rparr>]"
    unfolding dem prob_seven by auto
  ultimately show ?thesis
    by (elim disjE) (simp_all add: n_days_eq)
qed

text \<open>
  Claim C7. Every calendar day \<open>d\<close> in \<open>[0, 7)\<close> is an on-duty day of exactly 5 of the 7
  start days, both by the specification's on-duty sets and by the notebook's \<open>list_in\<close>;
  and the constraint built for day \<open>d\<close> sums exactly 5 distinct decision variables out of
  the 7.
\<close>

theorem five_cohorts_per_day:
  "0 \<le> d \<and> d < 7 \<longrightarrow>
     card {s \<in> {0..<7}. d \<in> spec_on_duty_days s canonical} = 5 \<and>
     (\<exists>lin. list_in = Inr lin \<and>
        length [s \<leftarrow> n_days. case getitem lin s of Inl _ \<Rightarrow> False | Inr l \<Rightarrow> d \<in> set l] = 5) \<and>
     (\<forall>demand p. length demand = 7 \<and> prob demand = Inr p \<longrightarrow>
        length (lhs (constraints p ! nat d)) = 5 \<and> distinct (lhs (constraints p ! nat d)) \<and>
        set (lhs (constraints p ! nat d)) \<subseteq> set n_days)"
proof
  assume d: "0 \<le> d \<and> d < 7"
  obtain lin where lin: "list_in = Inr lin"
    by (simp add: list_in_eq)
  from d have c: "card {s \<in> {0..<7}. d \<in> spec_on_duty_days s canonical} = 5"
    using on_duty_count [of d] by (elim conjE)
  from d lin have l: "length [s \<leftarrow> n_days. case getitem lin s of Inl _ \<Rightarrow> False | Inr l \<Rightarrow> d \<in> set l] = 5"
    using list_in_count [of d lin] by (elim conjE)
  have v: "length (lhs (constraints p ! nat d)) = 5 \<and> distinct (lhs (constraints p ! nat d)) \<and>
        set (lhs (constraints p ! nat d)) \<subseteq> set n_days"
    if "length demand = 7 \<and> prob demand = Inr p" for demand p
    using d that constraint_vars [of d demand p] by (elim conjE)
  from c lin l v
  show "card {s \<in> {0..<7}. d \<in> spec_on_duty_days s canonical} = 5 \<and>
     (\<exists>lin. list_in = Inr lin \<and>
        length [s \<leftarrow> n_days. case getitem lin s of Inl _ \<Rightarrow> False | Inr l \<Rightarrow> d \<in> set l] = 5) \<and>
     (\<forall>demand p. length demand = 7 \<and> prob demand = Inr p \<longrightarrow>
        length (lhs (constraints p ! nat d)) = 5 \<and> distinct (lhs (constraints p ! nat d)) \<and>
        set (lhs (constraints p ! nat d)) \<subseteq> set n_days)"
    by blast
qed

theorem five_cohorts_per_day_witness:
  "(0::int) \<le> 6 \<and> (6::int) < 7 \<and> length n_staff = 7 \<and>
   card {s \<in> {0..<7}. 6 \<in> spec_on_duty_days s canonical} = 5 \<and>
   (\<exists>p. prob n_staff = Inr p \<and> length (lhs (constraints p ! nat 6)) = 5)"
proof -
  have len: "length n_staff = 7" by (simp add: n_staff_def)
  obtain p where p: "prob n_staff = Inr p"
    by (simp add: n_staff_def prob_seven)
  from five_cohorts_per_day [of 6] len p show ?thesis
    by auto
qed

section \<open>Validation\<close>

lemma zip_length_min:
  "length (zip n_days (zip excl demand)) = min 7 (min (length excl) (length demand))"
  by (simp add: n_days_eq)

text \<open>
  Claim C9, as stated, asks that invalid input (a cycle configuration with
  \<open>work_span + rest_span \<noteq> cycle_length\<close>, a demand vector of the wrong length or with a
  negative entry) raise a validation error before any model is constructed. The notebook
  has no configuration input and no validation step: the demand vector \<open>[-1]\<close>, of length
  1 and negative, is turned into a problem with one constraint.
\<close>

theorem no_validation_counterexample:
  "prob [- 1] = Inr \<lparr>objective = [0, 1, 2, 3, 4, 5, 6],
                     constraints = [\<lparr>lhs = [0, 3, 4, 5, 6], rhs = - 1\<rparr>]\<rparr> \<and>
   \<not> isl (prob [- 1])"
  by (simp add: prob_def list_in_eq list_excl_eq n_days_eq bind_err_def)

lemma kept_is_on_duty:
  assumes "0 \<le> d" and "d < 7"
  shows "[i \<leftarrow> n_days. i \<notin> set [(d + 1) mod 7, (d + 2) mod 7]] =
         [s \<leftarrow> n_days. d \<in> spec_on_duty_days s canonical]"
proof (rule filter_cong [OF refl])
  fix s assume "s \<in> set n_days"
  then have "s \<in> {0..<7}"
    by (auto simp: n_days_eq)
  moreover from assms
  have "set [(d + 1) mod 7, (d + 2) mod 7] = {s \<in> {0..<7}. d \<notin> spec_on_duty_days s canonical}"
    using excluded_complement [of d] by simp
  ultimately show "(s \<notin> set [(d + 1) mod 7, (d + 2) mod 7]) = (d \<in> spec_on_duty_days s canonical)"
    by blast
qed

lemma zipped_row:
  assumes "0 \<le> d" and "d < 7" and "nat d < length demand" and "list_excl = Inr excl"
  shows "zip n_days (zip excl demand) ! nat d =
         (d, [(d + 1) mod 7, (d + 2) mod 7], demand ! nat d)"
proof -
  from assms(1,2) have cases: "d = 0 \<or> d = 1 \<or> d = 2 \<or> d = 3 \<or> d = 4 \<or> d = 5 \<or> d = 6"
    by (rule day_cases)
  from assms(4) have excl: "excl =
     [[1, 2], [2, 3], [3, 4], [4, 5], [5, 6], [6, 0], [0, 1], [1, 2],
      [2, 3], [3, 4], [4, 5], [5, 6], [6, 0], [0, 1], [1, 2], [2, 3],
      [3, 4], [4, 5], [5, 6], [6, 0], [0, 1]]"
    by (simp add: list_excl_eq)
  from assms(1,2) have len: "nat d < length n_days" "nat d < length excl"
    by (simp_all add: n_days_eq excl)
  with assms(3) have "zip n_days (zip excl demand) ! nat d = (n_days ! nat d, excl ! nat d, demand ! nat d)"
    by simp
  moreover from cases have "n_days ! nat d = d \<and> excl ! nat d = [(d + 1) mod 7, (d + 2) mod 7]"
    unfolding excl n_days_eq
    by (elim disjE) simp_all
  ultimately show ?thesis
    by simp
qed

lemma prob_row:
  assumes "0 \<le> d" and "d < int (min 7 (length demand))" and "prob demand = Inr p"
  shows "constraints p ! nat d =
         \<lparr>lhs = [s \<leftarrow> n_days. d \<in> spec_on_duty_days s canonical], rhs = demand ! nat d\<rparr>"
proof -
  from assms(2) have d7: "d < 7" and dl: "nat d < length demand"
    using assms(1) by simp_all
  obtain excl where excl: "list_excl = Inr excl" and el: "length excl = 21"
    by (simp add: list_excl_eq)
  from assms(3) have cons: "constraints p =
      map (\<lambda>(d, l_excl, staff). \<lparr>lhs = [i \<leftarrow> n_days. i \<notin> set l_excl], rhs = staff\<rparr>)
          (zip n_days (zip excl demand))"
    by (auto simp add: prob_def list_in_eq excl bind_err_def)
  from assms(1) d7 have n7: "nat d < 7"
    by arith
  have "length n_days = 7"
    by (simp add: n_days_eq)
  with n7 dl el have "nat d < length (zip n_days (zip excl demand))"
    by simp
  then have "constraints p ! nat d =
      (\<lambda>(d, l_excl, staff). \<lparr>lhs = [i \<leftarrow> n_days. i \<notin> set l_excl], rhs = staff\<rparr>)
        (zip n_days (zip excl demand) ! nat d)"
    unfolding cons by (rule nth_map)
  also have "\<dots> = \<lparr>lhs = [i \<leftarrow> n_days. i \<notin> set [(d + 1) mod 7, (d + 2) mod 7]], rhs = demand ! nat d\<rparr>"
    by (simp only: zipped_row [OF assms(1) d7 dl excl] prod.case)
  finally show ?thesis
    by (simp only: kept_is_on_duty [OF assms(1) d7])
qed

text \<open>
  Claim C9, amended. The notebook takes no cycle configuration (cycle length 7, work span
  5 and the two-day exclusion window are literals) and validates nothing: for every demand
  list, whatever its length and the sign of its entries, model construction raises no
  error and yields the objective over the seven variables together with one constraint
  for each of the first \<open>min(7, len(demand))\<close> days, the constraint of day \<open>d\<close> being the
  coverage constraint of that day: the sum of \<open>x[s]\<close> over the start days \<open>s\<close> other than
  \<open>(d + 1) mod 7\<close> and \<open>(d + 2) mod 7\<close>, which are the start days on duty on \<open>d\<close>, is at
  least \<open>demand[d]\<close>.
\<close>

theorem model_construction_total:
  "\<exists>p. prob demand = Inr p \<and> objective p = n_days \<and>
       length (constraints p) = min 7 (length demand) \<and>
       (\<forall>d. 0 \<le> d \<and> d < int (min 7 (length demand)) \<longrightarrow>
          constraints p ! nat d =
            \<lparr>lhs = [s \<leftarrow> n_days. d \<in> spec_on_duty_days s canonical], rhs = demand ! nat d\<rparr> \<and>
          lhs (constraints p ! nat d) = [i \<leftarrow> n_days. i \<notin> {(d + 1) mod 7, (d + 2) mod 7}])"
proof -
  have "\<exists>p. prob demand = Inr p \<and> objective p = n_days \<and>
       length (constraints p) = min 7 (length demand)"
    by (simp add: prob_def list_in_eq list_excl_eq bind_err_def zip_length_min del: length_zip)
  then obtain p where p: "prob demand = Inr p" and obj: "objective p = n_days"
    and len: "length (constraints p) = min 7 (length demand)"
    by blast
  have row: "constraints p ! nat d =
      \<lparr>lhs = [s \<leftarrow> n_days. d \<in> spec_on_duty_days s canonical], rhs = demand ! nat d\<rparr>"
    if "0 \<le> d \<and> d < int (min 7 (length demand))" for d
    using that p by (simp add: prob_row)
  have kept: "lhs (constraints p ! nat d) = [i \<leftarrow> n_days. i \<notin> {(d + 1) mod 7, (d + 2) mod 7}]"
    if d: "0 \<le> d \<and> d < int (min 7 (length demand))" for d
  proof -
    from d have "0 \<le> d" "d < 7" by auto
    then have "[i \<leftarrow> n_days. i \<notin> set [(d + 1) mod 7, (d + 2) mod 7]] =
         [s \<leftarrow> n_days. d \<in> spec_on_duty_days s canonical]"
      by (rule kept_is_on_duty)
    then show ?thesis
      by (simp add: row [OF d])
  qed
  show ?thesis
  proof (intro exI [of _ p] conjI allI impI)
    show "prob demand = Inr p" by (rule p)
    show "objective p = n_days" by (rule obj)
    show "length (constraints p) = min 7 (length demand)" by (rule len)
    show "constraints p ! nat d =
      \<lparr>lhs = [s \<leftarrow> n_days. d \<in> spec_on_duty_days s canonical], rhs = demand ! nat d\<rparr>"
      if "0 \<le> d \<and> d < int (min 7 (length demand))" for d
      using that by (rule row)
    show "lhs (constraints p ! nat d) = [i \<leftarrow> n_days. i \<notin> {(d + 1) mod 7, (d + 2) mod 7}]"
      if "0 \<le> d \<and> d < int (min 7 (length demand))" for d
      using that by (rule kept)
  qed
qed

theorem model_construction_total_witness:
  "(0::int) \<le> 1 \<and> (1::int) < int (min 7 (length [- 1, 0, 5 :: int])) \<and>
   (\<exists>p. prob [- 1, 0, 5] = Inr p \<and> length (constraints p) = 3 \<and>
      constraints p ! nat 1 = \<lparr>lhs = [0, 1, 4, 5, 6], rhs = 0\<rparr>)"
proof -
  have d: "(0::int) \<le> 1 \<and> (1::int) < int (min 7 (length [- 1, 0, 5 :: int]))"
    by simp
  have on: "[s \<leftarrow> n_days. (1::int) \<in> spec_on_duty_days s canonical] = [0, 1, 4, 5, 6]"
    by (simp add: n_days_eq on_duty_canonical)
  from model_construction_total [of "[- 1, 0, 5]"] obtain p
    where p: "prob [- 1, 0, 5] = Inr p"
      and len: "length (constraints p) = min 7 (length [- 1, 0, 5 :: int])"
      and rows: "\<forall>d. 0 \<le> d \<and> d < int (min 7 (length [- 1, 0, 5 :: int])) \<longrightarrow>
          constraints p ! nat d =
            \<lparr>lhs = [s \<leftarrow> n_days. d \<in> spec_on_duty_days s canonical], rhs = [- 1, 0, 5] ! nat d\<rparr> \<and>
          lhs (constraints p ! nat d) = [i \<leftarrow> n_days. i \<notin> {(d + 1) mod 7, (d + 2) mod 7}]"
    by blast
  from len have l: "length (constraints p) = 3"
    by simp
  from rows [rule_format, OF d] on have r: "constraints p ! nat 1 = \<lparr>lhs = [0, 1, 4, 5, 6], rhs = 0\<rparr>"
    by simp
  from d have d0: "(0::int) \<le> 1" and d1: "(1::int) < int (min 7 (length [- 1, 0, 5 :: int]))"
    by (rule conjunct1, rule conjunct2)
  from d0 d1 p l r show ?thesis
    by (intro conjI exI [of _ p])
qed

end
